theory Spec2Isabelle
  imports Main
begin

section \<open>Data model of the genealogy network\<close>

text \<open>
  The contact and cell records come from the data hooks \<^verbatim>\<open>useContacts\<close> and
  \<^verbatim>\<open>useCells\<close>. Field names clash between the records of the source, so the
  fields of a contact carry the prefix \<open>contact_\<close>, those of a cell the prefix
  \<open>cell_\<close>, and the two fields \<open>id\<close> and \<open>name\<close> of a \<^verbatim>\<open>MemberNode\<close> the
  prefix \<open>member_\<close>. A field of type \<^verbatim>\<open>string | null\<close> is a \<open>string option\<close>.
\<close>

record Contact =
  contact_id :: string
  contact_name :: string
  contact_whatsapp :: "string option"
  contact_neighborhood :: string
  contact_status :: string
  contact_cell_id :: "string option"
  contact_referred_by :: "string option"
  contact_baptized :: bool
  contact_encounter_with_god :: bool
  contact_photo_url :: "string option"

record Cell =
  cell_id :: string
  cell_name :: string
  cell_leader_name :: string

record MemberNode =
  member_id :: string
  member_name :: string
  leader :: string
  cell :: string
  status :: string
  referredBy :: "string option"
  referrals :: "string list"
  whatsapp :: "string option"
  neighborhood :: string
  baptized :: bool
  encounterWithGod :: bool
  level :: int
  totalDescendants :: int
  photo_url :: "string option"

text \<open>
  JavaScript truthiness of a \<^verbatim>\<open>string | null\<close> value: \<^verbatim>\<open>null\<close> and the empty
  string are falsy. \<open>or_null\<close> is \<^verbatim>\<open>x || null\<close> and \<open>or_default\<close> is
  \<^verbatim>\<open>x || d\<close> on such a value.
\<close>

definition truthy :: "string option \<Rightarrow> bool" where
  "truthy x = (case x of None \<Rightarrow> False | Some s \<Rightarrow> s \<noteq> [])"

definition or_null :: "string option \<Rightarrow> string option" where
  "or_null x = (if truthy x then x else None)"

definition or_default :: "string option \<Rightarrow> string \<Rightarrow> string" where
  "or_default x d = (case x of None \<Rightarrow> d | Some s \<Rightarrow> if s \<noteq> [] then s else d)"

text \<open>The placeholders \<^verbatim>\<open>'Sem l\'ider'\<close> and \<^verbatim>\<open>'Sem c\'elula'\<close>, in UTF-8 bytes.\<close>

definition sem_lider :: string where
  "sem_lider = ''Sem l'' @ [char_of (0xC3 :: nat), char_of (0xAD :: nat)] @ ''der''"

definition sem_celula :: string where
  "sem_celula = ''Sem c'' @ [char_of (0xC3 :: nat), char_of (0xA9 :: nat)] @ ''lula''"

text \<open>
  \<^verbatim>\<open>new Map(cells.map(cell => [cell.id, cell]))\<close>: a later cell with the same id
  replaces an earlier one.
\<close>

definition cellsMap :: "Cell list \<Rightarrow> (string \<rightharpoonup> Cell)" where
  "cellsMap cells = map_of (rev (map (\<lambda>c. (cell_id c, c)) cells))"

text \<open>The body of \<^verbatim>\<open>contacts.map(contact => ...)\<close>, lines 73 to 92.\<close>

definition toMember :: "(string \<rightharpoonup> Cell) \<Rightarrow> Contact \<Rightarrow> MemberNode" where
  "toMember cm contact =
     (let c = (if truthy (contact_cell_id contact)
               then cm (the (contact_cell_id contact)) else None)
      in \<lparr> member_id = contact_id contact,
           member_name = contact_name contact,
           leader = or_default (map_option cell_leader_name c) sem_lider,
           cell = or_default (map_option cell_name c) sem_celula,
           status = contact_status contact,
           referredBy = or_null (contact_referred_by contact),
           referrals = [],
           whatsapp = contact_whatsapp contact,
           neighborhood = contact_neighborhood contact,
           baptized = contact_baptized contact,
           encounterWithGod = contact_encounter_with_god contact,
           level = 0,
           totalDescendants = 0,
           photo_url = or_null (contact_photo_url contact) \<rparr>)"

section \<open>Depth and descendant count\<close>

text \<open>
  \<^verbatim>\<open>calculateMemberLevel\<close> and \<^verbatim>\<open>calculateTotalDescendants\<close> recurse along the
  referral links with no visited set, so on a cyclic relation they do not return.
  They are partial functions into \<open>option\<close>: \<open>None\<close> is "does not return".
\<close>

partial_function (option) calculateMemberLevel :: "string \<Rightarrow> MemberNode list \<Rightarrow> int option" where
  "calculateMemberLevel memberId members =
     (case find (\<lambda>m. member_id m = memberId) members of
        None \<Rightarrow> Some 0
      | Some member \<Rightarrow>
          if \<not> truthy (referredBy member) then Some 0
          else Option.bind (calculateMemberLevel (the (referredBy member)) members)
                 (\<lambda>l. Some (1 + l)))"

declare calculateMemberLevel.simps [code]

text \<open>
  The loop \<^verbatim>\<open>member.referrals.forEach(childId => { total += f(childId) })\<close>, with
  the running total as accumulator.
\<close>

fun forEach_total :: "(string \<Rightarrow> int option) \<Rightarrow> string list \<Rightarrow> int \<Rightarrow> int option" where
  "forEach_total f [] tot = Some tot"
| "forEach_total f (childId # rest) tot =
     Option.bind (f childId) (\<lambda>d. forEach_total f rest (tot + d))"

lemma forEach_total_mono [partial_function_mono]:
  assumes "\<And>c. mono_option (\<lambda>f. B f c)"
  shows "mono_option (\<lambda>f. forEach_total (B f) cs t)"
  using assms by (induction cs arbitrary: t) (auto intro!: partial_function_mono)

partial_function (option) calculateTotalDescendants :: "string \<Rightarrow> MemberNode list \<Rightarrow> int option" where
  "calculateTotalDescendants memberId members =
     (case find (\<lambda>m. member_id m = memberId) members of
        None \<Rightarrow> Some 0
      | Some member \<Rightarrow>
          forEach_total (\<lambda>childId. calculateTotalDescendants childId members)
            (referrals member) (int (length (referrals member))))"

declare calculateTotalDescendants.simps [code]

section \<open>Deriving the member nodes\<close>

text \<open>
  One turn of \<^verbatim>\<open>allMembers.forEach(member => ...)\<close>, lines 95 to 102, for the
  member at index \<open>i\<close>. The objects of the array are updated in place, so the two
  helper calls read the array as it is at that moment: the referral lists of the
  members before \<open>i\<close> and of \<open>i\<close> itself are filled, those of the members after
  \<open>i\<close> are still empty.
\<close>

definition fillMember :: "nat \<Rightarrow> MemberNode list \<Rightarrow> MemberNode list option" where
  "fillMember i allMembers =
     (let member = allMembers ! i;
          ms1 = allMembers[i := member\<lparr>referrals :=
                  map member_id (filter (\<lambda>m. referredBy m = Some (member_id member)) allMembers)\<rparr>]
      in case calculateMemberLevel (member_id member) ms1 of
           None \<Rightarrow> None
         | Some l \<Rightarrow>
             (let ms2 = ms1[i := (ms1 ! i)\<lparr>level := l\<rparr>]
              in case calculateTotalDescendants (member_id member) ms2 of
                   None \<Rightarrow> None
                 | Some d \<Rightarrow> Some (ms2[i := (ms2 ! i)\<lparr>totalDescendants := d\<rparr>])))"

text \<open>The whole loop: the indices \<open>0, ..., length allMembers - 1\<close> in order.\<close>

definition forEach_fill :: "MemberNode list \<Rightarrow> MemberNode list option" where
  "forEach_fill allMembers =
     fold (\<lambda>i acc. Option.bind acc (fillMember i)) [0..<length allMembers] (Some allMembers)"

definition deriveMembers :: "Contact list \<Rightarrow> Cell list \<Rightarrow> MemberNode list option" where
  "deriveMembers contacts cells = forEach_fill (map (toMember (cellsMap cells)) contacts)"

text \<open>The two filters of lines 105 to 111.\<close>

definition connectedOf :: "MemberNode list \<Rightarrow> MemberNode list" where
  "connectedOf allMembers =
     filter (\<lambda>member. truthy (referredBy member) \<or> length (referrals member) > 0) allMembers"

definition standbyOf :: "MemberNode list \<Rightarrow> MemberNode list" where
  "standbyOf allMembers =
     filter (\<lambda>member. \<not> truthy (referredBy member) \<and> length (referrals member) = 0) allMembers"

text \<open>
  The \<^verbatim>\<open>useMemo\<close> of lines 65 to 114: the pair \<open>(connectedMembers, standbyMembers)\<close>,
  or \<open>None\<close> when a helper call does not return.
\<close>

definition processMembers ::
  "bool \<Rightarrow> bool \<Rightarrow> Contact list \<Rightarrow> Cell list \<Rightarrow> (MemberNode list \<times> MemberNode list) option" where
  "processMembers contactsLoading cellsLoading contacts cells =
     (if contactsLoading \<or> cellsLoading \<or> length contacts = 0 then Some ([], [])
      else case deriveMembers contacts cells of
             None \<Rightarrow> None
           | Some allMembers \<Rightarrow> Some (connectedOf allMembers, standbyOf allMembers))"

section \<open>Visibility filter, edges and expansion toggle\<close>

text \<open>
  The view state: \<^verbatim>\<open>visibleLevels : Set<number>\<close>, \<^verbatim>\<open>expandedNodes : Set<string>\<close>
  and \<^verbatim>\<open>focusedLevel : number | null\<close>. The filter of lines 160 to 171.
\<close>

definition visibleMembers ::
  "MemberNode list \<Rightarrow> int set \<Rightarrow> string set \<Rightarrow> int option \<Rightarrow> MemberNode list" where
  "visibleMembers connectedMembers visibleLevels expandedNodes focusedLevel =
     filter (\<lambda>member.
       let shouldShowByLevel = (level member \<in> visibleLevels);
           shouldShowByExpansion = (level member = 0 \<or> member_id member \<in> expandedNodes \<or>
             (truthy (referredBy member) \<and> the (referredBy member) \<in> expandedNodes))
       in case focusedLevel of
            Some f \<Rightarrow> level member = f
          | None \<Rightarrow> shouldShowByLevel \<and> shouldShowByExpansion) connectedMembers"

text \<open>
  A rendered node and a rendered edge. The position (a floating-point layout), the
  colours and the other presentation fields are left out.
\<close>

record FlowNode =
  node_id :: string
  node_member :: MemberNode
  isExpanded :: bool

record FlowEdge =
  edge_id :: string
  source :: string
  target :: string

definition nodesOf :: "MemberNode list \<Rightarrow> string set \<Rightarrow> FlowNode list" where
  "nodesOf visible expandedNodes =
     map (\<lambda>member. \<lparr> node_id = member_id member, node_member = member,
                      isExpanded = (member_id member \<in> expandedNodes) \<rparr>) visible"

text \<open>The loop of lines 194 to 210: one edge per visible member whose referrer is visible.\<close>

definition edgesOf :: "MemberNode list \<Rightarrow> FlowEdge list" where
  "edgesOf visible =
     concat (map (\<lambda>member.
       if truthy (referredBy member) \<and>
          find (\<lambda>m. Some (member_id m) = referredBy member) visible \<noteq> None
       then [\<lparr> edge_id = the (referredBy member) @ ''-'' @ member_id member,
               source = the (referredBy member),
               target = member_id member \<rparr>]
       else []) visible)"

text \<open>The \<^verbatim>\<open>useMemo\<close> of lines 156 to 213: the pair \<open>(nodes, edges)\<close>.\<close>

definition networkGraph ::
  "MemberNode list \<Rightarrow> int set \<Rightarrow> string set \<Rightarrow> int option \<Rightarrow> FlowNode list \<times> FlowEdge list" where
  "networkGraph connectedMembers visibleLevels expandedNodes focusedLevel =
     (if length connectedMembers = 0 then ([], [])
      else let visible = visibleMembers connectedMembers visibleLevels expandedNodes focusedLevel
           in (nodesOf visible expandedNodes, edgesOf visible))"

text \<open>
  \<^verbatim>\<open>toggleNodeExpansionCallback\<close>, lines 116 to 129, as the function from the
  previous expanded set to the next one.
\<close>

definition toggleNodeExpansionCallback :: "MemberNode list \<Rightarrow> string \<Rightarrow> string set \<Rightarrow> string set" where
  "toggleNodeExpansionCallback connectedMembers nodeId prev =
     (case find (\<lambda>m. member_id m = nodeId) connectedMembers of
        None \<Rightarrow> prev
      | Some member \<Rightarrow>
          if length (referrals member) > 0
          then (if nodeId \<in> prev then prev - {nodeId} else insert nodeId prev)
          else prev)"

section \<open>The edit dialog: saving a contact\<close>

text \<open>
  The form state of \<^verbatim>\<open>EditContactDialog\<close> and the object passed to
  \<^verbatim>\<open>updateContact\<close>. The two versions of \<^verbatim>\<open>handleSave\<close> in the repository differ
  only in their log messages.
\<close>

record Form =
  form_name :: string
  form_whatsapp :: string
  form_email :: string
  form_neighborhood :: string
  form_city_id :: string
  form_birth_date :: string
  form_encounter_with_god :: bool
  form_baptized :: bool
  form_status :: string
  form_cell_id :: string
  form_referred_by :: string
  form_photo_url :: "string option"
  form_founder :: bool
  form_leader_id :: string

record UpdateData =
  upd_name :: string
  upd_whatsapp :: string
  upd_neighborhood :: string
  upd_city_id :: "string option"
  upd_birth_date :: "string option"
  upd_encounter_with_god :: bool
  upd_baptized :: bool
  upd_status :: string
  upd_cell_id :: "string option"
  upd_referred_by :: "string option"
  upd_photo_url :: "string option"
  upd_founder :: bool
  upd_leader_id :: "string option"

text \<open>What \<^verbatim>\<open>handleSave\<close> does besides the update itself, in order.\<close>

datatype Effect =
    Toast string string string
  | SetSaving bool
  | CallUpdateContact string UpdateData
  | OnContactUpdated
  | OnOpenChange bool

text \<open>\<^verbatim>\<open>s || null\<close> on a string.\<close>

definition str_or_null :: "string \<Rightarrow> string option" where
  "str_or_null s = (if s \<noteq> [] then Some s else None)"

definition required_fields_message :: string where
  "required_fields_message =
     ''Por favor, preencha todos os campos obrigat'' @
     [char_of (0xC3 :: nat), char_of (0xB3 :: nat)] @ ''rios (Nome, WhatsApp e Bairro).''"

text \<open>The variable \<^verbatim>\<open>newStatus\<close> of \<^verbatim>\<open>handleSave\<close>.\<close>

definition newStatus :: "Form \<Rightarrow> Contact \<Rightarrow> string" where
  "newStatus form contact =
     (if form_cell_id form \<noteq> [] \<and> Some (form_cell_id form) \<noteq> contact_cell_id contact
      then ''member''
      else if form_cell_id form = [] \<and> truthy (contact_cell_id contact)
      then ''pending''
      else contact_status contact)"

definition referredByValue :: "Form \<Rightarrow> string option" where
  "referredByValue form =
     (if form_referred_by form \<noteq> [] \<and> form_referred_by form \<noteq> ''no-referral'' \<and>
         form_referred_by form \<noteq> []
      then Some (form_referred_by form) else None)"

definition leaderIdValue :: "Form \<Rightarrow> string option" where
  "leaderIdValue form =
     (if form_leader_id form \<noteq> [] \<and> form_leader_id form \<noteq> []
      then Some (form_leader_id form) else None)"

definition updateData :: "Form \<Rightarrow> Contact \<Rightarrow> UpdateData" where
  "updateData form contact =
     \<lparr> upd_name = form_name form,
       upd_whatsapp = form_whatsapp form,
       upd_neighborhood = form_neighborhood form,
       upd_city_id = str_or_null (form_city_id form),
       upd_birth_date = str_or_null (form_birth_date form),
       upd_encounter_with_god = form_encounter_with_god form,
       upd_baptized = form_baptized form,
       upd_status = newStatus form contact,
       upd_cell_id = str_or_null (form_cell_id form),
       upd_referred_by = referredByValue form,
       upd_photo_url = form_photo_url form,
       upd_founder = form_founder form,
       upd_leader_id = leaderIdValue form \<rparr>"

text \<open>
  \<^verbatim>\<open>handleSave\<close>. The update operation of the contacts hook is a parameter: on a
  store \<open>'s\<close> it returns the new store and whether the promise resolved (\<open>True\<close>) or
  was rejected (\<open>False\<close>). \<open>hasOnContactUpdated\<close> says whether the optional callback
  was given. The result is the store after the call and the effects in order.
\<close>

definition handleSave ::
  "(string \<Rightarrow> UpdateData \<Rightarrow> 's \<Rightarrow> 's \<times> bool) \<Rightarrow> bool \<Rightarrow> Form \<Rightarrow> Contact \<Rightarrow> 's
     \<Rightarrow> 's \<times> Effect list" where
  "handleSave updateContact hasOnContactUpdated form contact store =
     (if form_name form = [] \<or> form_whatsapp form = [] \<or> form_neighborhood form = []
      then (store, [Toast ''Erro'' required_fields_message ''destructive''])
      else
        let d = updateData form contact;
            r = updateContact (contact_id contact) d store
        in (fst r,
            [SetSaving True, CallUpdateContact (contact_id contact) d] @
            (if snd r
             then (if hasOnContactUpdated then [OnContactUpdated] else []) @ [OnOpenChange False]
             else [Toast ''Erro'' ''Erro ao atualizar contato'' ''destructive'']) @
            [SetSaving False]))"

text \<open>The updates an effect list sends.\<close>

fun sentUpdates :: "Effect list \<Rightarrow> (string \<times> UpdateData) list" where
  "sentUpdates [] = []"
| "sentUpdates (CallUpdateContact i d # es) = (i, d) # sentUpdates es"
| "sentUpdates (_ # es) = sentUpdates es"

section \<open>The referral relation and the notions the properties are stated with\<close>

text \<open>
  The referral relation of a contact list: an edge from the referrer's id to the id
  of each contact that names it. \<open>member_rel\<close> is the same relation read off the
  member nodes.
\<close>

definition referral_rel :: "Contact list \<Rightarrow> (string \<times> string) set" where
  "referral_rel contacts =
     set (map (\<lambda>c. (the (contact_referred_by c), contact_id c))
            (filter (\<lambda>c. truthy (contact_referred_by c)) contacts))"

definition member_rel :: "MemberNode list \<Rightarrow> (string \<times> string) set" where
  "member_rel members =
     set (map (\<lambda>m. (the (referredBy m), member_id m))
            (filter (\<lambda>m. referredBy m \<noteq> None) members))"

definition member_key :: "MemberNode \<Rightarrow> string \<times> string option" where
  "member_key m = (member_id m, referredBy m)"

text \<open>Every referrer id that is set is the id of a contact of the list.\<close>

definition referrers_resolve :: "Contact list \<Rightarrow> bool" where
  "referrers_resolve contacts =
     list_all (\<lambda>c. truthy (contact_referred_by c) \<longrightarrow>
                  the (contact_referred_by c) \<in> set (map contact_id contacts)) contacts"

text \<open>
  Every entry of a referral list is an edge of the relation; the value the loop
  stores in \<open>referrals\<close>; and the loop cut after its first \<open>n\<close> turns.
\<close>

definition refs_ok :: "MemberNode list \<Rightarrow> bool" where
  "refs_ok ms = (\<forall>m \<in> set ms. \<forall>c \<in> set (referrals m). (member_id m, c) \<in> member_rel ms)"

definition filledReferrals :: "nat \<Rightarrow> MemberNode list \<Rightarrow> string list" where
  "filledReferrals i ms =
     map member_id (filter (\<lambda>m. referredBy m = Some (member_id (ms ! i))) ms)"

definition fill_upto :: "nat \<Rightarrow> MemberNode list \<Rightarrow> MemberNode list option" where
  "fill_upto n ms = fold (\<lambda>i acc. Option.bind acc (fillMember i)) [0..<n] (Some ms)"

text \<open>The ids of the contacts that name \<open>x\<close> as their referrer, in input order.\<close>

definition referralsOf :: "Contact list \<Rightarrow> string \<Rightarrow> string list" where
  "referralsOf contacts x =
     map contact_id (filter (\<lambda>c. or_null (contact_referred_by c) = Some x) contacts)"

section \<open>Scenario data\<close>

text \<open>A contact with the given id and referrer, every other field blank.\<close>

definition scenario_contact :: "string \<Rightarrow> string option \<Rightarrow> Contact" where
  "scenario_contact i r =
     \<lparr> contact_id = i, contact_name = i, contact_whatsapp = None,
       contact_neighborhood = [], contact_status = ''pending'', contact_cell_id = None,
       contact_referred_by = r, contact_baptized = False,
       contact_encounter_with_god = False, contact_photo_url = None \<rparr>"

definition chain_ABC :: "Contact list" where
  "chain_ABC = [scenario_contact ''A'' None, scenario_contact ''B'' (Some ''A''),
                scenario_contact ''C'' (Some ''B'')]"

definition chain_CBA :: "Contact list" where
  "chain_CBA = [scenario_contact ''C'' (Some ''B''), scenario_contact ''B'' (Some ''A''),
                scenario_contact ''A'' None]"

text \<open>
  Lists in which two contacts carry the same id, and a list with a referrer id that
  is the id of no contact.
\<close>

definition dup_ids :: "Contact list" where
  "dup_ids = [scenario_contact ''a'' (Some ''b''), scenario_contact ''a'' None,
              scenario_contact ''b'' None]"

definition dup_dangling :: "Contact list" where
  "dup_dangling = [scenario_contact ''a'' None, scenario_contact ''a'' (Some ''zz'')]"

definition dangling :: "Contact list" where
  "dangling = [scenario_contact ''a'' None, scenario_contact ''b'' (Some ''zz'')]"

text \<open>
  A member node as the derivation builds it from a scenario contact when there are
  no cells, with the given referral list, level and descendant count.
\<close>

definition scenario_member ::
  "string \<Rightarrow> string option \<Rightarrow> string list \<Rightarrow> int \<Rightarrow> int \<Rightarrow> MemberNode" where
  "scenario_member i r refs l d =
     \<lparr> member_id = i, member_name = i, leader = sem_lider, cell = sem_celula,
       status = ''pending'', referredBy = r, referrals = refs, whatsapp = None,
       neighborhood = [], baptized = False, encounterWithGod = False, level = l,
       totalDescendants = d, photo_url = None \<rparr>"

text \<open>
  The contacts A and B (referred by A) with the isolated contact D; two contacts that
  refer to each other; and the member lists the derivation returns on the scenario
  lists, written out.
\<close>

definition pair_and_D :: "Contact list" where
  "pair_and_D = [scenario_contact ''A'' None, scenario_contact ''B'' (Some ''A''),
                 scenario_contact ''D'' None]"

definition cycle_AB :: "Contact list" where
  "cycle_AB = [scenario_contact ''A'' (Some ''B''), scenario_contact ''B'' (Some ''A'')]"

definition derived_ABC :: "MemberNode list" where
  "derived_ABC = [scenario_member ''A'' None [''B''] 0 1,
                  scenario_member ''B'' (Some ''A'') [''C''] 1 1,
                  scenario_member ''C'' (Some ''B'') [] 2 0]"

definition derived_ABD :: "MemberNode list" where
  "derived_ABD = [scenario_member ''A'' None [''B''] 0 1,
                  scenario_member ''B'' (Some ''A'') [] 1 0,
                  scenario_member ''D'' None [] 0 0]"

definition derived_dangling :: "MemberNode list" where
  "derived_dangling = [scenario_member ''a'' None [] 0 0,
                       scenario_member ''b'' (Some ''zz'') [] 1 0]"

text \<open>
  The default visible levels of the view, a form with the given name, whatsapp number,
  neighborhood and cell id, and an update operation that appends the update to a log
  and succeeds.
\<close>

definition default_levels :: "int set" where
  "default_levels = {0, 1, 2, 3, 4}"

definition scenario_form :: "string \<Rightarrow> string \<Rightarrow> string \<Rightarrow> string \<Rightarrow> Form" where
  "scenario_form n w b c =
     \<lparr> form_name = n, form_whatsapp = w, form_email = [], form_neighborhood = b,
       form_city_id = [], form_birth_date = [], form_encounter_with_god = False,
       form_baptized = False, form_status = ''pending'', form_cell_id = c,
       form_referred_by = [], form_photo_url = None, form_founder = False,
       form_leader_id = [] \<rparr>"

definition recording_update ::
  "string \<Rightarrow> UpdateData \<Rightarrow> (string \<times> UpdateData) list \<Rightarrow> (string \<times> UpdateData) list \<times> bool" where
  "recording_update i d store = (store @ [(i, d)], True)"

section \<open>Lemmas on the two recursive helpers\<close>

lemma find_member_id:
  "find (\<lambda>m. member_id m = x) ms = Some m \<Longrightarrow> member_id m = x \<and> m \<in> set ms"
  by (auto simp: find_Some_iff)

lemma member_rel_edge:
  "m \<in> set ms \<Longrightarrow> referredBy m = Some r \<Longrightarrow> (r, member_id m) \<in> member_rel ms"
  by (force simp: member_rel_def)

lemma truthy_Some: "truthy x \<Longrightarrow> \<exists>r. x = Some r \<and> r \<noteq> []"
  by (cases x) (auto simp: truthy_def)

lemma calculateMemberLevel_returns:
  assumes "acyclic (member_rel ms)"
  shows "\<exists>n. calculateMemberLevel x ms = Some n \<and> 0 \<le> n"
proof -
  have "wf (member_rel ms)"
    using assms by (intro finite_acyclic_wf) (simp_all add: member_rel_def)
  then show ?thesis
  proof (induction x rule: wf_induct_rule)
    case (less x)
    show ?case
    proof (cases "find (\<lambda>m. member_id m = x) ms")
      case None
      then show ?thesis by (subst calculateMemberLevel.simps) simp
    next
      case (Some m)
      show ?thesis
      proof (cases "truthy (referredBy m)")
        case False
        with Some show ?thesis by (subst calculateMemberLevel.simps) simp
      next
        case True
        then obtain r where r: "referredBy m = Some r" using truthy_Some by blast
        with Some have "(r, x) \<in> member_rel ms"
          using find_member_id member_rel_edge by blast
        then obtain n where "calculateMemberLevel r ms = Some n" "0 \<le> n"
          using less by blast
        with Some True r show ?thesis
          by (subst calculateMemberLevel.simps) simp
      qed
    qed
  qed
qed

lemma find_member_key:
  "map_option member_key (find (\<lambda>m. member_id m = x) zs) =
     find (\<lambda>k. fst k = x) (map member_key zs)"
  by (induction zs) (auto simp: member_key_def)

lemma find_keys:
  assumes "map member_key ms = map member_key ms'"
  shows "map_option member_key (find (\<lambda>m. member_id m = x) ms) =
         map_option member_key (find (\<lambda>m. member_id m = x) ms')"
  using assms by (simp add: find_member_key)

lemma calculateMemberLevel_keys_Some:
  "calculateMemberLevel x ms = Some y \<Longrightarrow> map member_key ms = map member_key ms' \<Longrightarrow>
   calculateMemberLevel x ms' = Some y"
proof (induction arbitrary: ms' rule: calculateMemberLevel.raw_induct [rotated 1, consumes 1, case_names step])
  case (step f x ms y)
  from find_keys [OF step.prems, of x]
  have fk: "map_option member_key (find (\<lambda>m. member_id m = x) ms) =
            map_option member_key (find (\<lambda>m. member_id m = x) ms')" .
  show ?case
  proof (cases "find (\<lambda>m. member_id m = x) ms")
    case None
    with fk have "find (\<lambda>m. member_id m = x) ms' = None" by simp
    with None step.hyps show ?thesis
      by (subst calculateMemberLevel.simps) simp
  next
    case (Some m)
    with fk obtain m' where m': "find (\<lambda>m. member_id m = x) ms' = Some m'"
      and rb: "referredBy m' = referredBy m"
      by (cases "find (\<lambda>m. member_id m = x) ms'") (auto simp: member_key_def)
    show ?thesis
    proof (cases "truthy (referredBy m)")
      case False
      with Some m' rb step.hyps show ?thesis
        by (subst calculateMemberLevel.simps) simp
    next
      case True
      with Some step.hyps obtain l where l: "f (the (referredBy m)) ms = Some l" and y: "y = 1 + l"
        by (auto simp: bind_eq_Some_conv)
      from step.IH [OF l step.prems] have "calculateMemberLevel (the (referredBy m)) ms' = Some l" .
      with m' rb True y show ?thesis
        by (subst calculateMemberLevel.simps) simp
    qed
  qed
qed

lemma calculateMemberLevel_keys:
  assumes "map member_key ms = map member_key ms'"
  shows "calculateMemberLevel x ms = calculateMemberLevel x ms'"
proof (cases "calculateMemberLevel x ms")
  case (Some y)
  then show ?thesis using calculateMemberLevel_keys_Some [OF Some assms] by simp
next
  case None
  show ?thesis
  proof (cases "calculateMemberLevel x ms'")
    case None
    with \<open>calculateMemberLevel x ms = None\<close> show ?thesis by simp
  next
    case (Some y)
    from calculateMemberLevel_keys_Some [OF Some assms [symmetric]] None show ?thesis by simp
  qed
qed

lemma member_rel_keys:
  "member_rel ms = set (map (\<lambda>k. (the (snd k), fst k)) (filter (\<lambda>k. snd k \<noteq> None) (map member_key ms)))"
  by (simp add: member_rel_def member_key_def filter_map comp_def)

lemma forEach_total_returns:
  "(\<And>c. c \<in> set cs \<Longrightarrow> \<exists>n. f c = Some n) \<Longrightarrow> \<exists>n. forEach_total f cs t = Some n"
proof (induction cs arbitrary: t)
  case Nil
  then show ?case by simp
next
  case (Cons c cs)
  then obtain d where "f c = Some d" by force
  moreover have "\<exists>n. forEach_total f cs (t + d) = Some n"
    using Cons by simp
  ultimately show ?case by simp
qed

lemma calculateTotalDescendants_returns:
  assumes "acyclic (member_rel ms)" and "refs_ok ms"
  shows "\<exists>n. calculateTotalDescendants x ms = Some n"
proof -
  have "wf ((member_rel ms)\<inverse>)"
    using assms(1) by (intro finite_acyclic_wf_converse) (simp_all add: member_rel_def)
  then show ?thesis
  proof (induction x rule: wf_induct_rule)
    case (less x)
    show ?case
    proof (cases "find (\<lambda>m. member_id m = x) ms")
      case None
      then show ?thesis by (subst calculateTotalDescendants.simps) simp
    next
      case (Some m)
      then have m: "member_id m = x" "m \<in> set ms" using find_member_id by blast+
      have "\<exists>n. calculateTotalDescendants c ms = Some n" if "c \<in> set (referrals m)" for c
      proof -
        from that m assms(2) have "(x, c) \<in> member_rel ms" by (auto simp: refs_ok_def)
        then show ?thesis using less by blast
      qed
      then have "\<exists>n. forEach_total (\<lambda>c. calculateTotalDescendants c ms) (referrals m)
                  (int (length (referrals m))) = Some n"
        by (rule forEach_total_returns)
      with Some show ?thesis by (subst calculateTotalDescendants.simps) simp
    qed
  qed
qed


lemma keys_update:
  "i < length ms \<Longrightarrow> member_key x = member_key (ms ! i) \<Longrightarrow>
   map member_key (ms[i := x]) = map member_key ms"
  by (simp add: list_eq_iff_nth_eq nth_list_update)

lemma member_rel_cong:
  "map member_key ms = map member_key ms' \<Longrightarrow> member_rel ms = member_rel ms'"
  by (simp add: member_rel_keys)

lemma refs_ok_update:
  assumes "refs_ok ms" "i < length ms" "member_key x = member_key (ms ! i)"
    and "\<And>c. c \<in> set (referrals x) \<Longrightarrow> (member_id x, c) \<in> member_rel ms"
  shows "refs_ok (ms[i := x])"
proof -
  have rel: "member_rel (ms[i := x]) = member_rel ms"
    using assms(2,3) by (intro member_rel_cong keys_update)
  have "set (ms[i := x]) \<subseteq> insert x (set ms)"
    by (rule set_update_subset_insert)
  with assms(1,4) show ?thesis
    unfolding refs_ok_def rel by blast
qed

lemma refs_ok_update_field:
  assumes "refs_ok ms" "i < length ms" "member_key x = member_key (ms ! i)"
    and "referrals x = referrals (ms ! i)"
  shows "refs_ok (ms[i := x])"
proof (rule refs_ok_update [OF assms(1-3)])
  fix c assume "c \<in> set (referrals x)"
  then have "c \<in> set (referrals (ms ! i))" using assms(4) by simp
  moreover have "ms ! i \<in> set ms" using assms(2) by simp
  moreover have "member_id x = member_id (ms ! i)" using assms(3) by (simp add: member_key_def)
  ultimately show "(member_id x, c) \<in> member_rel ms"
    using assms(1) by (auto simp: refs_ok_def)
qed

lemma filledReferrals_edge:
  "c \<in> set (filledReferrals i ms) \<Longrightarrow> (member_id (ms ! i), c) \<in> member_rel ms"
  by (auto simp: filledReferrals_def intro: member_rel_edge)

lemma fillMember_Some:
  assumes "fillMember i ms = Some ms'" "i < length ms"
  shows "\<exists>l d. calculateMemberLevel (member_id (ms ! i)) ms = Some l \<and>
           ms' = ms[i := (ms ! i)\<lparr>referrals := filledReferrals i ms, level := l,
                                  totalDescendants := d\<rparr>]"
proof -
  let ?ms1 = "ms[i := (ms ! i)\<lparr>referrals := filledReferrals i ms\<rparr>]"
  from assms obtain l d where l: "calculateMemberLevel (member_id (ms ! i)) ?ms1 = Some l"
    and ms': "ms' = ms[i := (ms ! i)\<lparr>referrals := filledReferrals i ms, level := l,
                                  totalDescendants := d\<rparr>]"
    by (auto simp: fillMember_def Let_def filledReferrals_def split: option.splits)
  have "map member_key ?ms1 = map member_key ms"
    using assms(2) by (intro keys_update) (simp_all add: member_key_def)
  then have "calculateMemberLevel (member_id (ms ! i)) ms = Some l"
    using l calculateMemberLevel_keys by metis
  with ms' show ?thesis by blast
qed

lemma fillMember_keys:
  assumes "fillMember i ms = Some ms'" "i < length ms"
  shows "map member_key ms' = map member_key ms" "length ms' = length ms"
  using fillMember_Some [OF assms] assms(2)
  by (auto intro!: keys_update simp: member_key_def)

lemma fillMember_refs_ok:
  assumes "fillMember i ms = Some ms'" "i < length ms" "refs_ok ms"
  shows "refs_ok ms'"
  using fillMember_Some [OF assms(1,2)] assms(2,3)
  by (auto intro!: refs_ok_update filledReferrals_edge simp: member_key_def)

lemma fillMember_returns:
  assumes "acyclic (member_rel ms)" "refs_ok ms" "i < length ms"
  shows "\<exists>ms'. fillMember i ms = Some ms'"
proof -
  let ?x = "(ms ! i)\<lparr>referrals := filledReferrals i ms\<rparr>"
  let ?ms1 = "ms[i := ?x]"
  have k1: "map member_key ?ms1 = map member_key ms"
    using assms(3) by (intro keys_update) (simp_all add: member_key_def)
  have ok1: "refs_ok ?ms1"
    using assms(2,3) by (intro refs_ok_update) (auto simp: member_key_def intro: filledReferrals_edge)
  have ac1: "acyclic (member_rel ?ms1)"
    using assms(1) member_rel_cong [OF k1] by simp
  obtain l where l: "calculateMemberLevel (member_id (ms ! i)) ?ms1 = Some l"
    using calculateMemberLevel_returns [OF ac1] by blast
  let ?ms2 = "?ms1[i := (?ms1 ! i)\<lparr>level := l\<rparr>]"
  have k2: "map member_key ?ms2 = map member_key ?ms1"
    using assms(3) by (intro keys_update) (simp_all add: member_key_def)
  have ok2: "refs_ok ?ms2"
    using assms(3) by (intro refs_ok_update_field [OF ok1]) (simp_all add: member_key_def)
  have ac2: "acyclic (member_rel ?ms2)"
    using ac1 member_rel_cong [OF k2] by simp
  obtain d where d: "calculateTotalDescendants (member_id (ms ! i)) ?ms2 = Some d"
    using calculateTotalDescendants_returns [OF ac2 ok2] by blast
  from l d show ?thesis
    by (simp add: fillMember_def Let_def filledReferrals_def)
qed

section \<open>Lemmas on the loop\<close>

lemma fill_upto_Suc: "fill_upto (Suc n) ms = Option.bind (fill_upto n ms) (fillMember n)"
  by (simp add: fill_upto_def)

lemma fill_upto_sound:
  "fill_upto n ms0 = Some ms \<Longrightarrow> n \<le> length ms0 \<Longrightarrow>
   length ms = length ms0 \<and> map member_key ms = map member_key ms0 \<and>
   (refs_ok ms0 \<longrightarrow> refs_ok ms) \<and>
   (\<forall>i<n. calculateMemberLevel (member_id (ms0 ! i)) ms0 = Some (level (ms ! i)))"
proof (induction n arbitrary: ms)
  case 0
  then show ?case by (simp add: fill_upto_def)
next
  case (Suc n)
  from Suc.prems(1) obtain mid where mid: "fill_upto n ms0 = Some mid"
    and step: "fillMember n mid = Some ms"
    by (auto simp: fill_upto_Suc bind_eq_Some_conv)
  from Suc.IH [OF mid] Suc.prems(2)
  have len: "length mid = length ms0" and keys: "map member_key mid = map member_key ms0"
    and ok: "refs_ok ms0 \<longrightarrow> refs_ok mid"
    and lv: "\<forall>i<n. calculateMemberLevel (member_id (ms0 ! i)) ms0 = Some (level (mid ! i))"
    by auto
  have n: "n < length mid" using len Suc.prems(2) by simp
  from fillMember_Some [OF step n] obtain l d
    where l: "calculateMemberLevel (member_id (mid ! n)) mid = Some l"
      and ms: "ms = mid[n := (mid ! n)\<lparr>referrals := filledReferrals n mid, level := l,
                                  totalDescendants := d\<rparr>]"
    by blast
  have idn: "member_id (mid ! n) = member_id (ms0 ! n)"
    using keys n len by (metis fst_conv member_key_def nth_map)
  have "calculateMemberLevel (member_id (ms0 ! n)) ms0 = Some l"
    using l idn calculateMemberLevel_keys [OF keys] by simp
  moreover have "level (ms ! n) = l" using ms n by simp
  moreover have "\<And>i. i < n \<Longrightarrow> ms ! i = mid ! i" using ms by simp
  ultimately have "\<forall>i<Suc n. calculateMemberLevel (member_id (ms0 ! i)) ms0 = Some (level (ms ! i))"
    using lv by (auto simp: less_Suc_eq)
  moreover have "refs_ok ms0 \<longrightarrow> refs_ok ms"
    using ok fillMember_refs_ok [OF step n] by blast
  ultimately show ?case
    using fillMember_keys [OF step n] len keys by simp
qed

lemma fill_upto_returns:
  assumes "acyclic (member_rel ms0)" "refs_ok ms0"
  shows "n \<le> length ms0 \<Longrightarrow> \<exists>ms. fill_upto n ms0 = Some ms"
proof (induction n)
  case 0
  then show ?case by (simp add: fill_upto_def)
next
  case (Suc n)
  then obtain mid where mid: "fill_upto n ms0 = Some mid" by auto
  from fill_upto_sound [OF mid] Suc.prems assms(2)
  have "length mid = length ms0" "map member_key mid = map member_key ms0" "refs_ok mid"
    by auto
  then have "\<exists>ms. fillMember n mid = Some ms"
    using assms(1) Suc.prems member_rel_cong [of mid ms0]
    by (intro fillMember_returns) auto
  with mid show ?case by (simp add: fill_upto_Suc)
qed

lemma forEach_fill_upto: "forEach_fill ms = fill_upto (length ms) ms"
  by (simp add: forEach_fill_def fill_upto_def)

section \<open>Lemmas on the derivation\<close>

lemma member_rel_toMember:
  "member_rel (map (toMember cm) contacts) = referral_rel contacts"
proof -
  have "referredBy (toMember cm c) \<noteq> None \<longleftrightarrow> truthy (contact_referred_by c)" for c
    by (auto simp: toMember_def Let_def or_null_def truthy_def split: option.splits)
  moreover have "truthy (contact_referred_by c) \<Longrightarrow>
      the (referredBy (toMember cm c)) = the (contact_referred_by c)" for c
    by (simp add: toMember_def Let_def or_null_def)
  moreover have "member_id (toMember cm c) = contact_id c" for c
    by (simp add: toMember_def Let_def)
  ultimately show ?thesis
    by (simp add: member_rel_def referral_rel_def filter_map comp_def cong: filter_cong map_cong)
qed

lemma refs_ok_toMember: "refs_ok (map (toMember cm) contacts)"
  by (auto simp: refs_ok_def toMember_def Let_def)

lemma deriveMembers_returns:
  assumes "acyclic (referral_rel contacts)"
  shows "\<exists>allMembers. deriveMembers contacts cells = Some allMembers"
  using fill_upto_returns [of "map (toMember (cellsMap cells)) contacts" "length contacts"] assms
  by (simp add: deriveMembers_def forEach_fill_upto member_rel_toMember refs_ok_toMember)

lemma deriveMembers_sound:
  assumes "deriveMembers contacts cells = Some allMembers"
  shows "length allMembers = length contacts"
    and "map member_key allMembers = map member_key (map (toMember (cellsMap cells)) contacts)"
    and "refs_ok allMembers"
    and "\<And>i. i < length contacts \<Longrightarrow>
           calculateMemberLevel (contact_id (contacts ! i)) (map (toMember (cellsMap cells)) contacts)
             = Some (level (allMembers ! i))"
proof -
  let ?ms0 = "map (toMember (cellsMap cells)) contacts"
  from assms have "fill_upto (length ?ms0) ?ms0 = Some allMembers"
    by (simp add: deriveMembers_def forEach_fill_upto)
  from fill_upto_sound [OF this] refs_ok_toMember
  have *: "length allMembers = length ?ms0" "map member_key allMembers = map member_key ?ms0"
    "refs_ok allMembers"
    "\<forall>i<length ?ms0. calculateMemberLevel (member_id (?ms0 ! i)) ?ms0 = Some (level (allMembers ! i))"
    by auto
  from * show "length allMembers = length contacts" by simp
  from * show "map member_key allMembers = map member_key ?ms0" by simp
  from * show "refs_ok allMembers" by simp
  fix i assume "i < length contacts"
  with *(4) show "calculateMemberLevel (contact_id (contacts ! i)) ?ms0 = Some (level (allMembers ! i))"
    by (simp add: toMember_def Let_def)
qed

lemma find_distinct:
  assumes "distinct (map f xs)" "i < length xs"
  shows "find (\<lambda>x. f x = f (xs ! i)) xs = Some (xs ! i)"
proof -
  have "\<And>j. j < i \<Longrightarrow> f (xs ! j) \<noteq> f (xs ! i)"
    using assms by (metis (no_types, lifting) distinct_conv_nth length_map nth_map order_less_trans nat_neq_iff)
  with assms(2) show ?thesis
    unfolding find_Some_iff by blast
qed

lemma toMember_id [simp]: "member_id (toMember cm c) = contact_id c"
  by (simp add: toMember_def Let_def)

lemma toMember_referredBy [simp]: "referredBy (toMember cm c) = or_null (contact_referred_by c)"
  by (simp add: toMember_def Let_def)

lemma truthy_or_null [simp]: "truthy (or_null x) = truthy x"
  by (simp add: or_null_def truthy_def)

lemma the_or_null: "truthy x \<Longrightarrow> the (or_null x) = the x"
  by (simp add: or_null_def)

lemma deriveMembers_keys_nth:
  assumes "deriveMembers contacts cells = Some allMembers" "i < length contacts"
  shows "member_id (allMembers ! i) = contact_id (contacts ! i)"
    and "referredBy (allMembers ! i) = or_null (contact_referred_by (contacts ! i))"
proof -
  from deriveMembers_sound(1,2) [OF assms(1)] assms(2)
  have "member_key (allMembers ! i) = member_key (toMember (cellsMap cells) (contacts ! i))"
    by (metis length_map nth_map)
  then show "member_id (allMembers ! i) = contact_id (contacts ! i)"
    and "referredBy (allMembers ! i) = or_null (contact_referred_by (contacts ! i))"
    by (simp_all add: member_key_def)
qed

lemma level_unfold_distinct:
  assumes "distinct (map contact_id contacts)" "i < length contacts"
  shows "calculateMemberLevel (contact_id (contacts ! i)) (map (toMember cm) contacts) =
         (if \<not> truthy (contact_referred_by (contacts ! i)) then Some 0
          else Option.bind
                 (calculateMemberLevel (the (contact_referred_by (contacts ! i))) (map (toMember cm) contacts))
                 (\<lambda>l. Some (1 + l)))"
proof -
  let ?ms0 = "map (toMember cm) contacts"
  have "distinct (map member_id ?ms0)" using assms(1) by (simp add: comp_def)
  from find_distinct [OF this, of i] assms(2)
  have "find (\<lambda>m. member_id m = contact_id (contacts ! i)) ?ms0 = Some (?ms0 ! i)" by simp
  then show ?thesis
    using assms(2) by (subst calculateMemberLevel.simps) (simp add: the_or_null)
qed

lemma level_unknown_id:
  "x \<notin> set (map member_id ms) \<Longrightarrow> calculateMemberLevel x ms = Some 0"
proof -
  assume "x \<notin> set (map member_id ms)"
  then have "find (\<lambda>m. member_id m = x) ms = None"
    by (auto simp: find_None_iff)
  then show ?thesis by (subst calculateMemberLevel.simps) simp
qed

lemma filledReferrals_keys:
  assumes "map member_key ms = map member_key ms'" "i < length ms"
  shows "filledReferrals i ms = filledReferrals i ms'"
proof -
  have *: "filledReferrals i zs =
      map fst (filter (\<lambda>k. snd k = Some (fst (map member_key zs ! i))) (map member_key zs))"
    if "i < length zs" for zs
    using that by (simp add: filledReferrals_def filter_map comp_def member_key_def)
  have "length ms' = length ms" using assms(1) by (metis length_map)
  with assms * [of ms] * [of ms'] show ?thesis by simp
qed

lemma fill_upto_referrals:
  "fill_upto n ms0 = Some ms \<Longrightarrow> n \<le> length ms0 \<Longrightarrow>
   (\<forall>i<n. referrals (ms ! i) = filledReferrals i ms0) \<and>
   (\<forall>i. n \<le> i \<longrightarrow> i < length ms0 \<longrightarrow> referrals (ms ! i) = referrals (ms0 ! i))"
proof (induction n arbitrary: ms)
  case 0
  then show ?case by (simp add: fill_upto_def)
next
  case (Suc n)
  from Suc.prems(1) obtain mid where mid: "fill_upto n ms0 = Some mid"
    and step: "fillMember n mid = Some ms"
    by (auto simp: fill_upto_Suc bind_eq_Some_conv)
  from fill_upto_sound [OF mid] Suc.prems(2)
  have len: "length mid = length ms0" and keys: "map member_key mid = map member_key ms0"
    by auto
  have n: "n < length mid" using len Suc.prems(2) by simp
  from fillMember_Some [OF step n] obtain l d
    where ms: "ms = mid[n := (mid ! n)\<lparr>referrals := filledReferrals n mid, level := l,
                                  totalDescendants := d\<rparr>]"
    by blast
  have "referrals (ms ! n) = filledReferrals n ms0"
    using ms n filledReferrals_keys [OF keys n] by simp
  moreover have "\<And>i. i \<noteq> n \<Longrightarrow> ms ! i = mid ! i" using ms by simp
  ultimately show ?case
    using Suc.IH [OF mid] Suc.prems(2) by (auto simp: less_Suc_eq)
qed

lemma filledReferrals_toMember:
  "i < length contacts \<Longrightarrow>
   filledReferrals i (map (toMember cm) contacts) = referralsOf contacts (contact_id (contacts ! i))"
  by (simp add: filledReferrals_def referralsOf_def filter_map comp_def)

lemma deriveMembers_ids:
  assumes "deriveMembers contacts cells = Some allMembers"
  shows "map member_id allMembers = map contact_id contacts"
proof -
  have "map member_id allMembers = map fst (map member_key allMembers)"
    by (simp add: member_key_def comp_def)
  also have "\<dots> = map fst (map member_key (map (toMember (cellsMap cells)) contacts))"
    using deriveMembers_sound(2) [OF assms] by simp
  also have "\<dots> = map contact_id contacts"
    by (simp add: member_key_def comp_def)
  finally show ?thesis .
qed

lemma deriveMembers_referrals:
  assumes "deriveMembers contacts cells = Some allMembers" "m \<in> set allMembers"
  shows "referrals m = referralsOf contacts (member_id m)"
proof -
  let ?ms0 = "map (toMember (cellsMap cells)) contacts"
  from assms(1) have f: "fill_upto (length ?ms0) ?ms0 = Some allMembers"
    by (simp add: deriveMembers_def forEach_fill_upto)
  from assms(2) deriveMembers_sound(1) [OF assms(1)]
  obtain i where i: "i < length contacts" "m = allMembers ! i"
    by (auto simp: in_set_conv_nth)
  from fill_upto_referrals [OF f] i have "referrals m = filledReferrals i ?ms0" by simp
  with i deriveMembers_keys_nth(1) [OF assms(1) i(1)] show ?thesis
    by (simp add: filledReferrals_toMember)
qed

lemma processMembers_cases:
  assumes "processMembers cL ceL contacts cells = Some (connectedMembers, standbyMembers)"
  shows "(connectedMembers = [] \<and> standbyMembers = []) \<or>
         (\<exists>allMembers. deriveMembers contacts cells = Some allMembers \<and>
            connectedMembers = connectedOf allMembers \<and> standbyMembers = standbyOf allMembers)"
  using assms by (auto simp: processMembers_def split: if_splits option.splits)

lemma toggle_leaf_derived:
  assumes "deriveMembers contacts cells = Some allMembers"
    and "m \<in> set (connectedOf allMembers)"
  shows "\<exists>m'. find (\<lambda>x. member_id x = member_id m) (connectedOf allMembers) = Some m' \<and>
               referrals m' = referrals m"
proof -
  from assms(2) obtain m' where f: "find (\<lambda>x. member_id x = member_id m) (connectedOf allMembers) = Some m'"
    by (cases "find (\<lambda>x. member_id x = member_id m) (connectedOf allMembers)")
       (auto simp: find_None_iff)
  then have "member_id m' = member_id m" "m' \<in> set allMembers"
    using find_member_id by (fastforce simp: connectedOf_def)+
  moreover from assms(2) have "m \<in> set allMembers" by (simp add: connectedOf_def)
  ultimately have "referrals m' = referrals m"
    using deriveMembers_referrals [OF assms(1)] by simp
  with f show ?thesis by blast
qed

section \<open>Lemmas on the view and on the edit dialog\<close>

lemma edgesOf_mem:
  assumes "e \<in> set (edgesOf visible)"
  shows "\<exists>child \<in> set visible. \<exists>parent \<in> set visible.
           target e = member_id child \<and> source e = member_id parent \<and>
           referredBy child = Some (member_id parent)"
proof -
  from assms obtain child where c: "child \<in> set visible" "truthy (referredBy child)"
    and f: "find (\<lambda>m. Some (member_id m) = referredBy child) visible \<noteq> None"
    and e: "e = \<lparr> edge_id = the (referredBy child) @ ''-'' @ member_id child,
                  source = the (referredBy child), target = member_id child \<rparr>"
    by (auto simp: edgesOf_def split: if_splits)
  from f obtain parent where p: "parent \<in> set visible" "Some (member_id parent) = referredBy child"
    by (auto simp: find_None_iff)
  from p(2) have rb: "referredBy child = Some (member_id parent)" by simp
  show ?thesis
    using c(1) p(1) e rb by (intro bexI [of _ child] bexI [of _ parent]) simp_all
qed

lemma networkGraph_eq:
  "networkGraph cm vl en fl =
     (nodesOf (visibleMembers cm vl en fl) en, edgesOf (visibleMembers cm vl en fl))"
  by (cases cm) (simp_all add: networkGraph_def Let_def visibleMembers_def nodesOf_def edgesOf_def)

lemma visibleMembers_mono:
  "en \<subseteq> en' \<Longrightarrow> set (visibleMembers cm vl en fl) \<subseteq> set (visibleMembers cm vl en' fl)"
  by (cases fl) (auto simp: visibleMembers_def Let_def)

lemma toggle_cases:
  "toggleNodeExpansionCallback cm n prev = prev \<or>
   toggleNodeExpansionCallback cm n prev = (if n \<in> prev then prev - {n} else insert n prev)"
  by (simp add: toggleNodeExpansionCallback_def split: option.splits)

lemma handleSave_valid:
  assumes "form_name form \<noteq> []" "form_whatsapp form \<noteq> []" "form_neighborhood form \<noteq> []"
  shows "sentUpdates (snd (handleSave updateContact cb form contact store)) =
           [(contact_id contact, updateData form contact)]"
    and "fst (handleSave updateContact cb form contact store) =
           fst (updateContact (contact_id contact) (updateData form contact) store)"
  using assms by (simp_all add: handleSave_def Let_def)

lemma level_dangling:
  assumes "distinct (map contact_id contacts)" "i < length contacts"
    and "truthy (contact_referred_by (contacts ! i))"
    and "the (contact_referred_by (contacts ! i)) \<notin> set (map contact_id contacts)"
  shows "calculateMemberLevel (contact_id (contacts ! i)) (map (toMember cm) contacts) = Some 1"
proof -
  have "the (contact_referred_by (contacts ! i)) \<notin> set (map member_id (map (toMember cm) contacts))"
    using assms(4) by (simp add: comp_def)
  from level_unknown_id [OF this] assms(3) show ?thesis
    by (simp add: level_unfold_distinct [OF assms(1,2)])
qed

lemma no_edge_to_dangling:
  assumes d: "deriveMembers contacts cells = Some allMembers"
    and dist: "distinct (map contact_id contacts)" and i: "i < length contacts"
    and t: "truthy (contact_referred_by (contacts ! i))"
    and dang: "the (contact_referred_by (contacts ! i)) \<notin> set (map contact_id contacts)"
    and sub: "set visible \<subseteq> set allMembers"
    and e: "e \<in> set (edgesOf visible)"
  shows "target e \<noteq> contact_id (contacts ! i)"
proof
  assume te: "target e = contact_id (contacts ! i)"
  from edgesOf_mem [OF e] obtain child parent
    where c: "child \<in> set visible" and p: "parent \<in> set visible"
      and tc: "target e = member_id child"
      and rb: "referredBy child = Some (member_id parent)" by blast
  note ids = deriveMembers_ids [OF d]
  have len: "length allMembers = length contacts" using deriveMembers_sound(1) [OF d] .
  from c sub have "child \<in> set allMembers" by blast
  then obtain j where j: "j < length allMembers" "child = allMembers ! j"
    by (auto simp: in_set_conv_nth)
  have jc: "j < length contacts" using j(1) len by simp
  have "contact_id (contacts ! j) = contact_id (contacts ! i)"
    using deriveMembers_keys_nth(1) [OF d jc] j(2) tc te by simp
  then have "map contact_id contacts ! j = map contact_id contacts ! i"
    using jc i by simp
  then have "j = i"
    using dist jc i by (metis length_map nth_eq_iff_index_eq)
  with j rb deriveMembers_keys_nth(2) [OF d i]
  have "or_null (contact_referred_by (contacts ! i)) = Some (member_id parent)" by simp
  with t have "the (contact_referred_by (contacts ! i)) = member_id parent"
    by (simp add: or_null_def)
  moreover from p sub have "member_id parent \<in> set (map member_id allMembers)" by auto
  ultimately show False using dang ids by simp
qed

lemma visibleMembers_subset: "set (visibleMembers cm vl en fl) \<subseteq> set cm"
  by (simp add: visibleMembers_def)

section \<open>The scenarios evaluated\<close>

lemma acyclic_chain_ABC: "acyclic (referral_rel chain_ABC)"
  by code_simp

lemma derived_ABD: "deriveMembers pair_and_D [] = Some derived_ABD"
  by code_simp

lemma derived_ABC: "deriveMembers chain_ABC [] = Some derived_ABC"
  by code_simp

lemma connected_ABC: "connectedOf derived_ABC = derived_ABC"
  by (simp add: connectedOf_def derived_ABC_def scenario_member_def truthy_def)

lemma ABD_ids:
  "map member_id (connectedOf derived_ABD) = [''A'', ''B''] \<and>
   map member_id (standbyOf derived_ABD) = [''D'']"
  by (simp add: connectedOf_def standbyOf_def derived_ABD_def scenario_member_def truthy_def)

lemma processMembers_ABD:
  "processMembers False False pair_and_D [] = Some (connectedOf derived_ABD, standbyOf derived_ABD)"
proof -
  have "length pair_and_D \<noteq> 0" by (simp add: pair_and_D_def)
  then show ?thesis by (simp add: processMembers_def derived_ABD)
qed

lemma processMembers_ABC:
  "processMembers False False chain_ABC [] = Some (derived_ABC, [])"
proof -
  have "length chain_ABC \<noteq> 0" by (simp add: chain_ABC_def)
  moreover have "standbyOf derived_ABC = []"
    by (simp add: standbyOf_def derived_ABC_def scenario_member_def truthy_def)
  ultimately show ?thesis by (simp add: processMembers_def derived_ABC connected_ABC)
qed

lemma view_ABC:
  "map member_id (visibleMembers derived_ABC default_levels {''A''} None) = [''A'', ''B''] \<and>
   map member_id (visibleMembers derived_ABC default_levels {''A''} (Some 1)) = [''B''] \<and>
   map edge_id (snd (networkGraph derived_ABC default_levels {''A''} None)) = [''A-B'']"
  by (simp add: networkGraph_def visibleMembers_def edgesOf_def Let_def derived_ABC_def
        scenario_member_def truthy_def default_levels_def)

lemma expand_ABC:
  "map member_id (visibleMembers derived_ABC default_levels {} None) = [''A''] \<and>
   map member_id (visibleMembers derived_ABC default_levels ({} \<union> {''A''}) None) = [''A'', ''B''] \<and>
   toggleNodeExpansionCallback derived_ABC ''A'' {} = {''A''}"
  by (simp add: visibleMembers_def toggleNodeExpansionCallback_def Let_def derived_ABC_def
        scenario_member_def truthy_def default_levels_def)

lemma toggle_ABC:
  "derived_ABC ! 0 \<in> set derived_ABC \<and> member_id (derived_ABC ! 0) = ''A'' \<and>
   referrals (derived_ABC ! 0) \<noteq> [] \<and>
   derived_ABC ! 2 \<in> set derived_ABC \<and> member_id (derived_ABC ! 2) = ''C'' \<and>
   referrals (derived_ABC ! 2) = [] \<and>
   ''D'' \<notin> set (map member_id derived_ABC)"
  by (simp add: derived_ABC_def scenario_member_def)


lemma derived_dangling: "deriveMembers dangling [] = Some derived_dangling"
  by code_simp

lemma dangling_hyps:
  "distinct (map contact_id dangling) \<and> (1::nat) < length dangling \<and>
   truthy (contact_referred_by (dangling ! 1)) \<and>
   the (contact_referred_by (dangling ! 1)) \<notin> set (map contact_id dangling)"
  by (simp add: dangling_def scenario_contact_def truthy_def)

lemma chain_ABC_wellformed:
  "referrers_resolve chain_ABC \<and> distinct (map contact_id chain_ABC)"
  by code_simp

text \<open>On two contacts that refer to each other the depth computation does not return.\<close>

lemma cycle_AB_level_None:
  "calculateMemberLevel ''A'' (map (toMember (cellsMap [])) cycle_AB) = None"
proof (cases "calculateMemberLevel ''A'' (map (toMember (cellsMap [])) cycle_AB)")
  case None
  then show ?thesis .
next
  case (Some n)
  let ?ms = "map (toMember (cellsMap [])) cycle_AB"
  have a: "calculateMemberLevel ''A'' ?ms =
             Option.bind (calculateMemberLevel ''B'' ?ms) (\<lambda>l. Some (1 + l))"
    by (subst calculateMemberLevel.simps)
       (simp add: cycle_AB_def scenario_contact_def toMember_def Let_def or_null_def truthy_def)
  have b: "calculateMemberLevel ''B'' ?ms =
             Option.bind (calculateMemberLevel ''A'' ?ms) (\<lambda>l. Some (1 + l))"
    by (subst calculateMemberLevel.simps)
       (simp add: cycle_AB_def scenario_contact_def toMember_def Let_def or_null_def truthy_def)
  from Some a obtain m where m: "calculateMemberLevel ''B'' ?ms = Some m" "n = 1 + m"
    by (auto simp: bind_eq_Some_conv)
  with b Some have "m = 1 + n" by simp
  with m(2) show ?thesis by simp
qed

section \<open>The claims\<close>

text \<open>
  C1. The claim: on an acyclic list whose referrers resolve, every node's
  \<open>totalDescendants\<close> is the size of its transitive referral subtree, and for the
  contacts A (no referrer), B (referrer A), C (referrer B) the count of A is 2.
  The code computes the count of a member in the same loop turn that fills that
  member's referral list, so the referral lists of the members later in the array are
  still empty when they are read. On the list A, B, C the counts are 1, 1, 0: A gets
  1, not 2. On the same contacts in the order C, B, A the counts are 0, 1, 2.
\<close>

theorem C1_totalDescendants_depends_on_order:
  "map_option (map totalDescendants) (deriveMembers chain_ABC []) = Some [1, 1, 0] \<and>
   map_option (map totalDescendants) (deriveMembers chain_CBA []) = Some [0, 1, 2]"
proof -
  have "map_option (map totalDescendants) (deriveMembers chain_ABC []) = Some [1, 1, 0]"
    by (simp add: derived_ABC derived_ABC_def scenario_member_def)
  moreover have "map_option (map totalDescendants) (deriveMembers chain_CBA []) = Some [0, 1, 2]"
    by code_simp
  ultimately show ?thesis by simp
qed

text \<open>
  C2, as stated: on every acyclic list whose referrers resolve, the level of a node is
  0 when it has no referrer and 1 + the level of its referrer otherwise. Both helpers
  look a member up by id and take the first match, so when two contacts carry the same
  id the level of the second is computed from the referrer of the first: in \<open>dup_ids\<close>
  the second node has no referrer and level 1.
\<close>

theorem C2_duplicate_id_counterexample:
  "acyclic (referral_rel dup_ids) \<and> referrers_resolve dup_ids \<and>
   map_option (map referredBy) (deriveMembers dup_ids []) = Some [Some ''b'', None, None] \<and>
   map_option (map level) (deriveMembers dup_ids []) = Some [1, 1, 0]"
  by code_simp

text \<open>
  C2, amended: on every list of contacts with pairwise distinct ids whose referral
  relation is acyclic and whose referrers resolve, the derivation returns, and the
  level of every node is non-negative, 0 when the node has no referrer, and 1 + the
  level of its referrer when it has one.
\<close>

theorem C2_level_recurrence:
  assumes "acyclic (referral_rel contacts)" and "referrers_resolve contacts"
    and "distinct (map contact_id contacts)"
  shows "\<exists>allMembers. deriveMembers contacts cells = Some allMembers \<and>
           length allMembers = length contacts \<and>
           (\<forall>i<length contacts.
              member_id (allMembers ! i) = contact_id (contacts ! i) \<and>
              referredBy (allMembers ! i) = or_null (contact_referred_by (contacts ! i)) \<and>
              0 \<le> level (allMembers ! i) \<and>
              (\<not> truthy (referredBy (allMembers ! i)) \<longrightarrow> level (allMembers ! i) = 0) \<and>
              (truthy (referredBy (allMembers ! i)) \<longrightarrow>
                 (\<exists>j<length contacts.
                    member_id (allMembers ! j) = the (referredBy (allMembers ! i)) \<and>
                    level (allMembers ! i) = 1 + level (allMembers ! j))))"
proof -
  let ?ms0 = "map (toMember (cellsMap cells)) contacts"
  from deriveMembers_returns [OF assms(1)] obtain allMembers
    where d: "deriveMembers contacts cells = Some allMembers" by blast
  note lv = deriveMembers_sound(4) [OF d]
  have ac: "acyclic (member_rel ?ms0)" using assms(1) by (simp add: member_rel_toMember)
  have "member_id (allMembers ! i) = contact_id (contacts ! i) \<and>
        referredBy (allMembers ! i) = or_null (contact_referred_by (contacts ! i)) \<and>
        0 \<le> level (allMembers ! i) \<and>
        (\<not> truthy (referredBy (allMembers ! i)) \<longrightarrow> level (allMembers ! i) = 0) \<and>
        (truthy (referredBy (allMembers ! i)) \<longrightarrow>
           (\<exists>j<length contacts.
              member_id (allMembers ! j) = the (referredBy (allMembers ! i)) \<and>
              level (allMembers ! i) = 1 + level (allMembers ! j)))"
    if i: "i < length contacts" for i
  proof -
    note k = deriveMembers_keys_nth [OF d i]
    have eq: "Some (level (allMembers ! i)) =
         (if \<not> truthy (contact_referred_by (contacts ! i)) then Some 0
          else Option.bind (calculateMemberLevel (the (contact_referred_by (contacts ! i))) ?ms0)
                 (\<lambda>l. Some (1 + l)))"
      using lv [OF i] level_unfold_distinct [OF assms(3) i] by simp
    have nonneg: "0 \<le> level (allMembers ! i)"
      using calculateMemberLevel_returns [OF ac, of "contact_id (contacts ! i)"] lv [OF i] by auto
    have root: "level (allMembers ! i) = 0" if "\<not> truthy (referredBy (allMembers ! i))"
      using that eq k by simp
    have step: "\<exists>j<length contacts.
              member_id (allMembers ! j) = the (referredBy (allMembers ! i)) \<and>
              level (allMembers ! i) = 1 + level (allMembers ! j)"
      if t: "truthy (referredBy (allMembers ! i))"
    proof -
      from t k have tc: "truthy (contact_referred_by (contacts ! i))" by simp
      let ?r = "the (contact_referred_by (contacts ! i))"
      from assms(2) i tc have "?r \<in> set (map contact_id contacts)"
        by (auto simp: referrers_resolve_def list_all_iff)
      then obtain j where j: "j < length contacts" "contact_id (contacts ! j) = ?r"
        by (auto simp: in_set_conv_nth)
      from lv [OF j(1)] j(2) eq tc have "level (allMembers ! i) = 1 + level (allMembers ! j)"
        by simp
      moreover have "member_id (allMembers ! j) = the (referredBy (allMembers ! i))"
        using deriveMembers_keys_nth(1) [OF d j(1)] j(2) k tc by (simp add: the_or_null)
      ultimately show ?thesis using j(1) by blast
    qed
    from k nonneg root step show ?thesis by blast
  qed
  with d deriveMembers_sound(1) [OF d] show ?thesis by blast
qed

theorem C2_level_recurrence_witness:
  "acyclic (referral_rel chain_ABC) \<and> referrers_resolve chain_ABC \<and>
   distinct (map contact_id chain_ABC) \<and>
   map_option (map level) (deriveMembers chain_ABC []) = Some [0, 1, 2]"
proof -
  have lv: "map_option (map level) (deriveMembers chain_ABC []) = Some [0, 1, 2]"
    by (simp add: derived_ABC derived_ABC_def scenario_member_def)
  from C2_level_recurrence [OF acyclic_chain_ABC, of "[]"] chain_ABC_wellformed
  obtain allMembers where "deriveMembers chain_ABC [] = Some allMembers" by blast
  with lv acyclic_chain_ABC chain_ABC_wellformed show ?thesis by simp
qed

text \<open>
  C3. On every contact list whose referral relation is acyclic the derivation returns:
  every call of \<open>calculateMemberLevel\<close> and \<open>calculateTotalDescendants\<close> made by the
  loop returns, and on the derived list both helpers return for every id.
\<close>

theorem C3_acyclic_terminates:
  assumes "acyclic (referral_rel contacts)"
  shows "\<exists>allMembers. deriveMembers contacts cells = Some allMembers \<and>
           (\<forall>memberId. (\<exists>l. calculateMemberLevel memberId allMembers = Some l) \<and>
                       (\<exists>d. calculateTotalDescendants memberId allMembers = Some d))"
proof -
  from deriveMembers_returns [OF assms] obtain allMembers
    where d: "deriveMembers contacts cells = Some allMembers" by blast
  from deriveMembers_sound(2,3) [OF d] assms
  have ac: "acyclic (member_rel allMembers)" and ok: "refs_ok allMembers"
    using member_rel_cong member_rel_toMember by (metis, simp)
  show ?thesis
    using d calculateMemberLevel_returns [OF ac] calculateTotalDescendants_returns [OF ac ok]
    by blast
qed

theorem C3_acyclic_terminates_witness:
  "acyclic (referral_rel chain_ABC) \<and>
   (\<exists>allMembers. deriveMembers chain_ABC [] = Some allMembers \<and>
      (\<forall>memberId. (\<exists>l. calculateMemberLevel memberId allMembers = Some l) \<and>
                  (\<exists>d. calculateTotalDescendants memberId allMembers = Some d)))"
  using C3_acyclic_terminates [OF acyclic_chain_ABC, of "[]"] acyclic_chain_ABC by simp

text \<open>
  C4. For every list of member nodes the two filters split it: every node is in the
  connected list or in the standby list and never in both, the two lengths add up to
  the length of the list, a node is connected exactly when it has a referrer or at
  least one referral, and standby exactly when it has neither. The two lists the
  component holds are these filters of the derived list (of the empty list while the
  data is loading or when there are no contacts).
\<close>

theorem C4_partition:
  "set (connectedOf allMembers) \<union> set (standbyOf allMembers) = set allMembers \<and>
   set (connectedOf allMembers) \<inter> set (standbyOf allMembers) = {} \<and>
   length (connectedOf allMembers) + length (standbyOf allMembers) = length allMembers \<and>
   (\<forall>m \<in> set allMembers.
      (m \<in> set (connectedOf allMembers) \<longleftrightarrow> truthy (referredBy m) \<or> referrals m \<noteq> []) \<and>
      (m \<in> set (standbyOf allMembers) \<longleftrightarrow> \<not> truthy (referredBy m) \<and> referrals m = [])) \<and>
   (\<forall>connectedMembers standbyMembers.
      processMembers cL ceL contacts cells = Some (connectedMembers, standbyMembers) \<longrightarrow>
      (\<exists>derived. (derived = [] \<or> deriveMembers contacts cells = Some derived) \<and>
         connectedMembers = connectedOf derived \<and> standbyMembers = standbyOf derived))"
proof -
  have "standbyOf allMembers =
        filter (\<lambda>m. \<not> (truthy (referredBy m) \<or> length (referrals m) > 0)) allMembers"
    by (simp add: standbyOf_def)
  then have "length (connectedOf allMembers) + length (standbyOf allMembers) = length allMembers"
    unfolding connectedOf_def by (simp only: sum_length_filter_compl)
  moreover have "set (connectedOf allMembers) \<union> set (standbyOf allMembers) = set allMembers"
    by (auto simp: connectedOf_def standbyOf_def)
  moreover have "set (connectedOf allMembers) \<inter> set (standbyOf allMembers) = {}"
    by (auto simp: connectedOf_def standbyOf_def)
  moreover have "\<forall>m \<in> set allMembers.
      (m \<in> set (connectedOf allMembers) \<longleftrightarrow> truthy (referredBy m) \<or> referrals m \<noteq> []) \<and>
      (m \<in> set (standbyOf allMembers) \<longleftrightarrow> \<not> truthy (referredBy m) \<and> referrals m = [])"
    by (simp add: connectedOf_def standbyOf_def)
  moreover have "\<exists>derived. (derived = [] \<or> deriveMembers contacts cells = Some derived) \<and>
         c = connectedOf derived \<and> s = standbyOf derived"
    if "processMembers cL ceL contacts cells = Some (c, s)" for c s
    using processMembers_cases [OF that]
    by (auto simp: connectedOf_def standbyOf_def intro: exI [of _ "[]"])
  ultimately show ?thesis by blast
qed

theorem C4_partition_witness:
  "map member_id (connectedOf derived_ABD) = [''A'', ''B''] \<and>
   map member_id (standbyOf derived_ABD) = [''D''] \<and>
   set (connectedOf derived_ABD) \<union> set (standbyOf derived_ABD) = set derived_ABD \<and>
   set (connectedOf derived_ABD) \<inter> set (standbyOf derived_ABD) = {} \<and>
   length (connectedOf derived_ABD) + length (standbyOf derived_ABD) = length derived_ABD \<and>
   processMembers False False pair_and_D [] =
     Some (connectedOf derived_ABD, standbyOf derived_ABD)"
  using C4_partition [of derived_ABD False False pair_and_D "[]"] ABD_ids processMembers_ABD
  by simp

text \<open>
  C5. With no focused level a connected member is visible exactly when its level is in
  the visible-level set and its level is 0, or its id is expanded, or its referrer's id
  is expanded. With a focused level it is visible exactly when its level is that level.
  The rendered nodes are the visible members, and every edge joins two visible members.
\<close>

theorem C5_visibility:
  "(m \<in> set (visibleMembers cm vl en None) \<longleftrightarrow>
      m \<in> set cm \<and> level m \<in> vl \<and>
      (level m = 0 \<or> member_id m \<in> en \<or> (truthy (referredBy m) \<and> the (referredBy m) \<in> en))) \<and>
   (m \<in> set (visibleMembers cm vl en (Some f)) \<longleftrightarrow> m \<in> set cm \<and> level m = f) \<and>
   map node_member (fst (networkGraph cm vl en fl)) = visibleMembers cm vl en fl \<and>
   (\<forall>e \<in> set (snd (networkGraph cm vl en fl)).
      \<exists>child \<in> set (visibleMembers cm vl en fl). \<exists>parent \<in> set (visibleMembers cm vl en fl).
        target e = member_id child \<and> source e = member_id parent \<and>
        referredBy child = Some (member_id parent))"
proof -
  have "m \<in> set (visibleMembers cm vl en None) \<longleftrightarrow>
      m \<in> set cm \<and> level m \<in> vl \<and>
      (level m = 0 \<or> member_id m \<in> en \<or> (truthy (referredBy m) \<and> the (referredBy m) \<in> en))"
    by (simp add: visibleMembers_def Let_def)
  moreover have "m \<in> set (visibleMembers cm vl en (Some f)) \<longleftrightarrow> m \<in> set cm \<and> level m = f"
    by (simp add: visibleMembers_def Let_def)
  moreover have "map node_member (fst (networkGraph cm vl en fl)) = visibleMembers cm vl en fl"
    by (simp add: networkGraph_eq nodesOf_def comp_def)
  moreover have "\<forall>e \<in> set (snd (networkGraph cm vl en fl)).
      \<exists>child \<in> set (visibleMembers cm vl en fl). \<exists>parent \<in> set (visibleMembers cm vl en fl).
        target e = member_id child \<and> source e = member_id parent \<and>
        referredBy child = Some (member_id parent)"
    using edgesOf_mem by (simp add: networkGraph_eq)
  ultimately show ?thesis by blast
qed

theorem C5_visibility_witness:
  "map member_id (visibleMembers derived_ABC default_levels {''A''} None) = [''A'', ''B''] \<and>
   map member_id (visibleMembers derived_ABC default_levels {''A''} (Some 1)) = [''B''] \<and>
   map edge_id (snd (networkGraph derived_ABC default_levels {''A''} None)) = [''A-B''] \<and>
   (\<exists>e. e \<in> set (snd (networkGraph derived_ABC default_levels {''A''} None)) \<and>
      (\<exists>child \<in> set (visibleMembers derived_ABC default_levels {''A''} None).
       \<exists>parent \<in> set (visibleMembers derived_ABC default_levels {''A''} None).
         target e = member_id child \<and> source e = member_id parent \<and>
         referredBy child = Some (member_id parent)))"
proof -
  have "snd (networkGraph derived_ABC default_levels {''A''} None) \<noteq> []"
    using view_ABC by auto
  then obtain e where "e \<in> set (snd (networkGraph derived_ABC default_levels {''A''} None))"
    using hd_in_set by blast
  with C5_visibility [of undefined derived_ABC default_levels "{''A''}" undefined None]
  have "\<exists>e. e \<in> set (snd (networkGraph derived_ABC default_levels {''A''} None)) \<and>
      (\<exists>child \<in> set (visibleMembers derived_ABC default_levels {''A''} None).
       \<exists>parent \<in> set (visibleMembers derived_ABC default_levels {''A''} None).
         target e = member_id child \<and> source e = member_id parent \<and>
         referredBy child = Some (member_id parent))"
    by blast
  with view_ABC show ?thesis by simp
qed

text \<open>
  C6. Adding a node id to the expanded set never removes a visible member, and neither
  does toggling a node that is not expanded.
\<close>

theorem C6_expand_monotone:
  "set (visibleMembers cm vl en fl) \<subseteq> set (visibleMembers cm vl (en \<union> {n}) fl) \<and>
   (n \<notin> en \<longrightarrow>
      set (visibleMembers cm vl en fl) \<subseteq>
      set (visibleMembers cm vl (toggleNodeExpansionCallback cm n en) fl))"
proof -
  have "set (visibleMembers cm vl en fl) \<subseteq>
        set (visibleMembers cm vl (toggleNodeExpansionCallback cm n en) fl)" if "n \<notin> en"
  proof -
    from that toggle_cases [of cm n en]
    have "en \<subseteq> toggleNodeExpansionCallback cm n en" by auto
    then show ?thesis by (rule visibleMembers_mono)
  qed
  moreover have "set (visibleMembers cm vl en fl) \<subseteq> set (visibleMembers cm vl (en \<union> {n}) fl)"
    by (rule visibleMembers_mono) blast
  ultimately show ?thesis by blast
qed

theorem C6_expand_monotone_witness:
  "''A'' \<notin> ({} :: string set) \<and>
   map member_id (visibleMembers derived_ABC default_levels {} None) = [''A''] \<and>
   map member_id (visibleMembers derived_ABC default_levels ({} \<union> {''A''}) None) = [''A'', ''B''] \<and>
   set (visibleMembers derived_ABC default_levels {} None)
     \<subseteq> set (visibleMembers derived_ABC default_levels ({} \<union> {''A''}) None) \<and>
   set (visibleMembers derived_ABC default_levels {} None)
     \<subseteq> set (visibleMembers derived_ABC default_levels
              (toggleNodeExpansionCallback derived_ABC ''A'' {}) None)"
  using C6_expand_monotone [of derived_ABC default_levels "{}" None "''A''"] expand_ABC
  by simp

text \<open>
  C7. On the connected members the component holds (the first component of
  \<open>processMembers\<close>), toggling a node with an empty referral list leaves the expanded
  set unchanged, toggling a node with at least one referral flips the membership of
  its id and of no other, and toggling an id that is not a connected member changes
  nothing.
\<close>

theorem C7_toggle_expansion:
  assumes "processMembers cL ceL contacts cells = Some (connectedMembers, standbyMembers)"
  shows "(\<forall>m \<in> set connectedMembers.
            (referrals m = [] \<longrightarrow>
               toggleNodeExpansionCallback connectedMembers (member_id m) prev = prev) \<and>
            (referrals m \<noteq> [] \<longrightarrow>
               toggleNodeExpansionCallback connectedMembers (member_id m) prev =
                 (if member_id m \<in> prev then prev - {member_id m} else insert (member_id m) prev))) \<and>
         (nodeId \<notin> set (map member_id connectedMembers) \<longrightarrow>
            toggleNodeExpansionCallback connectedMembers nodeId prev = prev)"
proof -
  have other: "toggleNodeExpansionCallback connectedMembers nodeId prev = prev"
    if "nodeId \<notin> set (map member_id connectedMembers)"
  proof -
    from that have "find (\<lambda>m. member_id m = nodeId) connectedMembers = None"
      by (auto simp: find_None_iff)
    then show ?thesis by (simp add: toggleNodeExpansionCallback_def)
  qed
  have mem: "(referrals m = [] \<longrightarrow>
               toggleNodeExpansionCallback connectedMembers (member_id m) prev = prev) \<and>
            (referrals m \<noteq> [] \<longrightarrow>
               toggleNodeExpansionCallback connectedMembers (member_id m) prev =
                 (if member_id m \<in> prev then prev - {member_id m} else insert (member_id m) prev))"
    if m: "m \<in> set connectedMembers" for m
  proof -
    from processMembers_cases [OF assms] m obtain allMembers
      where d: "deriveMembers contacts cells = Some allMembers"
        and c: "connectedMembers = connectedOf allMembers"
      by auto
    from toggle_leaf_derived [OF d] m c obtain m'
      where "find (\<lambda>x. member_id x = member_id m) connectedMembers = Some m'"
        and "referrals m' = referrals m" by blast
    then show ?thesis by (simp add: toggleNodeExpansionCallback_def)
  qed
  from other mem show ?thesis by blast
qed

theorem C7_toggle_expansion_witness:
  "processMembers False False chain_ABC [] = Some (derived_ABC, []) \<and>
   derived_ABC ! 2 \<in> set derived_ABC \<and> referrals (derived_ABC ! 2) = [] \<and>
   toggleNodeExpansionCallback derived_ABC ''C'' {''A''} = {''A''} \<and>
   derived_ABC ! 0 \<in> set derived_ABC \<and> referrals (derived_ABC ! 0) \<noteq> [] \<and>
   toggleNodeExpansionCallback derived_ABC ''A'' {''A''} = {} \<and>
   ''D'' \<notin> set (map member_id derived_ABC) \<and>
   toggleNodeExpansionCallback derived_ABC ''D'' {''A''} = {''A''}"
proof -
  note t = C7_toggle_expansion [OF processMembers_ABC, of "{''A''}" "''D''"]
  from t toggle_ABC have "toggleNodeExpansionCallback derived_ABC ''C'' {''A''} = {''A''}"
    by metis
  moreover from t toggle_ABC have "toggleNodeExpansionCallback derived_ABC ''A'' {''A''} = {}"
    by (metis Diff_cancel insertI1)
  moreover from t toggle_ABC have "toggleNodeExpansionCallback derived_ABC ''D'' {''A''} = {''A''}"
    by blast
  ultimately show ?thesis using toggle_ABC processMembers_ABC by simp
qed

text \<open>
  C8. When the name, the whatsapp number or the neighborhood of the form is empty,
  \<open>handleSave\<close> only raises the error notification: the update operation is not called
  and the store is the one it started with.
\<close>

theorem C8_missing_required_field:
  assumes "form_name form = [] \<or> form_whatsapp form = [] \<or> form_neighborhood form = []"
  shows "fst (handleSave updateContact cb form contact store) = store \<and>
         sentUpdates (snd (handleSave updateContact cb form contact store)) = [] \<and>
         snd (handleSave updateContact cb form contact store) =
           [Toast ''Erro'' required_fields_message ''destructive'']"
  using assms by (auto simp: handleSave_def)

theorem C8_missing_required_field_witness:
  "(form_name (scenario_form [] ''5511'' ''Centro'' ''cell-1'') = [] \<or>
    form_whatsapp (scenario_form [] ''5511'' ''Centro'' ''cell-1'') = [] \<or>
    form_neighborhood (scenario_form [] ''5511'' ''Centro'' ''cell-1'') = []) \<and>
   fst (handleSave recording_update True (scenario_form [] ''5511'' ''Centro'' ''cell-1'')
          (scenario_contact ''A'' None) []) = [] \<and>
   sentUpdates (snd (handleSave recording_update True
          (scenario_form [] ''5511'' ''Centro'' ''cell-1'') (scenario_contact ''A'' None) [])) = []"
proof -
  have h: "form_name (scenario_form [] ''5511'' ''Centro'' ''cell-1'') = [] \<or>
    form_whatsapp (scenario_form [] ''5511'' ''Centro'' ''cell-1'') = [] \<or>
    form_neighborhood (scenario_form [] ''5511'' ''Centro'' ''cell-1'') = []"
    by (simp add: scenario_form_def)
  from C8_missing_required_field [OF h, of recording_update True "scenario_contact ''A'' None" "[]"] h
  show ?thesis by simp
qed

text \<open>
  C9. When the three required fields are filled, \<open>handleSave\<close> sends exactly one update,
  for the contact's id, and its status is \<open>member\<close> when the form's cell id is set and
  differs from the contact's, \<open>pending\<close> when the form's cell id is empty and the contact
  has one, and the contact's status otherwise.
\<close>

theorem C9_status_transition:
  assumes "form_name form \<noteq> []" "form_whatsapp form \<noteq> []" "form_neighborhood form \<noteq> []"
  shows "\<exists>d. sentUpdates (snd (handleSave updateContact cb form contact store)) =
                [(contact_id contact, d)] \<and>
              fst (handleSave updateContact cb form contact store) =
                fst (updateContact (contact_id contact) d store) \<and>
              (form_cell_id form \<noteq> [] \<and> Some (form_cell_id form) \<noteq> contact_cell_id contact
                 \<longrightarrow> upd_status d = ''member'') \<and>
              (form_cell_id form = [] \<and> truthy (contact_cell_id contact)
                 \<longrightarrow> upd_status d = ''pending'') \<and>
              (\<not> (form_cell_id form \<noteq> [] \<and> Some (form_cell_id form) \<noteq> contact_cell_id contact) \<and>
               \<not> (form_cell_id form = [] \<and> truthy (contact_cell_id contact))
                 \<longrightarrow> upd_status d = contact_status contact)"
  using handleSave_valid [OF assms, of updateContact cb contact store]
  by (intro exI [of _ "updateData form contact"]) (auto simp: updateData_def newStatus_def)

theorem C9_status_transition_witness:
  "form_name (scenario_form ''Ana'' ''5511'' ''Centro'' ''cell-1'') \<noteq> [] \<and>
   form_whatsapp (scenario_form ''Ana'' ''5511'' ''Centro'' ''cell-1'') \<noteq> [] \<and>
   form_neighborhood (scenario_form ''Ana'' ''5511'' ''Centro'' ''cell-1'') \<noteq> [] \<and>
   form_cell_id (scenario_form ''Ana'' ''5511'' ''Centro'' ''cell-1'') \<noteq> [] \<and>
   Some (form_cell_id (scenario_form ''Ana'' ''5511'' ''Centro'' ''cell-1''))
     \<noteq> contact_cell_id (scenario_contact ''A'' None) \<and>
   (\<exists>d. sentUpdates (snd (handleSave recording_update True
            (scenario_form ''Ana'' ''5511'' ''Centro'' ''cell-1'') (scenario_contact ''A'' None) []))
          = [(''A'', d)] \<and>
        fst (handleSave recording_update True
            (scenario_form ''Ana'' ''5511'' ''Centro'' ''cell-1'') (scenario_contact ''A'' None) [])
          = [(''A'', d)] \<and>
        upd_status d = ''member'')"
proof -
  let ?f = "scenario_form ''Ana'' ''5511'' ''Centro'' ''cell-1''"
  let ?c = "scenario_contact ''A'' None"
  have h: "form_name ?f \<noteq> []" "form_whatsapp ?f \<noteq> []" "form_neighborhood ?f \<noteq> []"
    by (simp_all add: scenario_form_def)
  have c: "form_cell_id ?f \<noteq> []" "Some (form_cell_id ?f) \<noteq> contact_cell_id ?c"
    "contact_id ?c = ''A''"
    by (simp_all add: scenario_form_def scenario_contact_def)
  from C9_status_transition [OF h, of recording_update True ?c "[]"] c
  obtain d where "sentUpdates (snd (handleSave recording_update True ?f ?c [])) = [(''A'', d)]"
    and "fst (handleSave recording_update True ?f ?c []) = fst (recording_update ''A'' d [])"
    and "upd_status d = ''member''"
    by auto
  then show ?thesis using h c by (auto simp: recording_update_def)
qed

text \<open>
  C10, as stated: a member whose referrer id is set and is the id of no contact has
  level 1. The level is computed from the first contact that carries the member's id,
  so in \<open>dup_dangling\<close> the second node, whose referrer \<open>zz\<close> is no contact's id, has
  level 0.
\<close>

theorem C10_duplicate_id_counterexample:
  "map_option (map referredBy) (deriveMembers dup_dangling []) = Some [None, Some ''zz''] \<and>
   ''zz'' \<notin> set (map contact_id dup_dangling) \<and>
   map_option (map level) (deriveMembers dup_dangling []) = Some [0, 0]"
  by code_simp

text \<open>
  C10, amended: in a list of contacts with pairwise distinct ids, for a contact whose
  referrer id is set but is the id of no contact, \<open>calculateMemberLevel\<close> returns 1, and
  whenever the derivation returns, the member has level 1, is in the connected list and
  not in the standby list, and no rendered edge ends at it.
\<close>

theorem C10_dangling_referrer:
  assumes "distinct (map contact_id contacts)" and "i < length contacts"
    and "truthy (contact_referred_by (contacts ! i))"
    and "the (contact_referred_by (contacts ! i)) \<notin> set (map contact_id contacts)"
  shows "calculateMemberLevel (contact_id (contacts ! i))
           (map (toMember (cellsMap cells)) contacts) = Some 1 \<and>
         (\<forall>allMembers. deriveMembers contacts cells = Some allMembers \<longrightarrow>
            level (allMembers ! i) = 1 \<and>
            allMembers ! i \<in> set (connectedOf allMembers) \<and>
            allMembers ! i \<notin> set (standbyOf allMembers) \<and>
            (\<forall>vl en fl. \<forall>e \<in> set (snd (networkGraph (connectedOf allMembers) vl en fl)).
               target e \<noteq> member_id (allMembers ! i)))"
proof -
  note l1 = level_dangling [OF assms, of "cellsMap cells"]
  have "level (allMembers ! i) = 1 \<and>
            allMembers ! i \<in> set (connectedOf allMembers) \<and>
            allMembers ! i \<notin> set (standbyOf allMembers) \<and>
            (\<forall>vl en fl. \<forall>e \<in> set (snd (networkGraph (connectedOf allMembers) vl en fl)).
               target e \<noteq> member_id (allMembers ! i))"
    if d: "deriveMembers contacts cells = Some allMembers" for allMembers
  proof -
    note k = deriveMembers_keys_nth [OF d assms(2)]
    have len: "length allMembers = length contacts" using deriveMembers_sound(1) [OF d] .
    have lv: "level (allMembers ! i) = 1"
      using deriveMembers_sound(4) [OF d assms(2)] l1 by simp
    have tr: "truthy (referredBy (allMembers ! i))" using k(2) assms(3) by simp
    have mem: "allMembers ! i \<in> set allMembers" using len assms(2) by simp
    have conn: "allMembers ! i \<in> set (connectedOf allMembers)"
      using tr mem by (simp add: connectedOf_def)
    have stby: "allMembers ! i \<notin> set (standbyOf allMembers)"
      using tr by (simp add: standbyOf_def)
    have edges: "target e \<noteq> member_id (allMembers ! i)"
      if "e \<in> set (snd (networkGraph (connectedOf allMembers) vl en fl))" for vl en fl e
    proof -
      have "set (visibleMembers (connectedOf allMembers) vl en fl) \<subseteq> set allMembers"
        using visibleMembers_subset [of "connectedOf allMembers" vl en fl]
        by (auto simp: connectedOf_def)
      from no_edge_to_dangling [OF d assms this] that k(1) show ?thesis
        by (simp add: networkGraph_eq)
    qed
    from lv conn stby edges show ?thesis by blast
  qed
  with l1 show ?thesis by blast
qed

theorem C10_dangling_referrer_witness:
  "distinct (map contact_id dangling) \<and> (1::nat) < length dangling \<and>
   truthy (contact_referred_by (dangling ! 1)) \<and>
   the (contact_referred_by (dangling ! 1)) \<notin> set (map contact_id dangling) \<and>
   deriveMembers dangling [] = Some derived_dangling \<and>
   level (derived_dangling ! 1) = 1 \<and>
   derived_dangling ! 1 \<in> set (connectedOf derived_dangling) \<and>
   derived_dangling ! 1 \<notin> set (standbyOf derived_dangling)"
proof -
  from dangling_hyps have h: "distinct (map contact_id dangling)" "1 < length dangling"
    "truthy (contact_referred_by (dangling ! 1))"
    "the (contact_referred_by (dangling ! 1)) \<notin> set (map contact_id dangling)"
    by blast+
  from C10_dangling_referrer [OF h, of "[]"] derived_dangling
  have "level (derived_dangling ! 1) = 1 \<and>
   derived_dangling ! 1 \<in> set (connectedOf derived_dangling) \<and>
   derived_dangling ! 1 \<notin> set (standbyOf derived_dangling)"
    by blast
  with dangling_hyps derived_dangling show ?thesis by blast
qed

end
